theory Spec2Isabelle
  imports Main "HOL-Library.Word"
begin

unbundle bit_operations_syntax

section \<open>Machine types\<close>

text \<open>
  \<^verbatim>\<open>unsigned int\<close> is the 32-bit unsigned integer of the interface (the seed taken by
  \<^verbatim>\<open>set_seed\<close>, the value returned by \<^verbatim>\<open>next\<close> and the value delivered by
  \<^verbatim>\<open>std::random_device\<close>).

  \<^verbatim>\<open>std::mt19937::result_type\<close> is \<^verbatim>\<open>uint_fast32_t\<close>, an unsigned type of at least 32
  bits whose width depends on the platform (32 or 64 bits in practice). It is the type
  parameter \<open>'r\<close> of the engine below, a word of \<open>LENGTH('r)\<close> bits.
\<close>

type_synonym uint = "32 word"

section \<open>The engine: \<^verbatim>\<open>std::mt19937\<close>\<close>

text \<open>
  \<^verbatim>\<open>using random_engine_type = std::mt19937;\<close>

  The engine is the standard library's
  \<^verbatim>\<open>mersenne_twister_engine<uint_fast32_t, 32, 624, 397, 31, 0x9908b0df, 11, 0xffffffff,
  7, 0x9d2c5680, 15, 0xefc60000, 18, 1812433253>\<close>.
  It is not code of this repository: the definitions of this section follow the
  specification of the engine in the C++ standard (clauses rand.eng.mers and
  rand.predef), with its parameter names \<open>w, n, m, r, a, u, d, s, b, t, c, l, f\<close>.
  Its state is a sequence \<open>X\<close> of \<open>n\<close> values of the result type, each below \<open>2 ^ w\<close>;
  the list holds \<open>X\<^bsub>i-n\<^esub>, \<dots>, X\<^bsub>i-1\<^esub>\<close>, oldest value first.
\<close>

type_synonym 'r mersenne_twister_engine = "'r word list"
type_synonym 'r random_engine_type = "'r mersenne_twister_engine"

definition word_size :: nat where "word_size = 32"
definition state_size :: nat where "state_size = 624"
definition shift_size :: nat where "shift_size = 397"
definition mask_bits :: nat where "mask_bits = 31"
definition xor_mask :: "'r::len word" where "xor_mask = 0x9908b0df"
definition tempering_u :: nat where "tempering_u = 11"
definition tempering_d :: "'r::len word" where "tempering_d = 0xffffffff"
definition tempering_s :: nat where "tempering_s = 7"
definition tempering_b :: "'r::len word" where "tempering_b = 0x9d2c5680"
definition tempering_t :: nat where "tempering_t = 15"
definition tempering_c :: "'r::len word" where "tempering_c = 0xefc60000"
definition tempering_l :: nat where "tempering_l = 18"
definition initialization_multiplier :: "'r::len word" where
  "initialization_multiplier = 1812433253"

text \<open>
  Seeding, \<^verbatim>\<open>mersenne_twister_engine(result_type value)\<close>: sets \<open>X\<^bsub>-n\<^esub>\<close> to
  \<open>value mod 2 ^ w\<close>, then for \<open>i = 1-n, \<dots>, -1\<close> sets \<open>X\<^bsub>i\<^esub>\<close> to
  \<open>(f * (X\<^bsub>i-1\<^esub> xor (X\<^bsub>i-1\<^esub> rshift (w-2))) + i mod n) mod 2 ^ w\<close>.
  The position \<open>k\<close> below counts from the front of the sequence, \<open>k = i mod n\<close>.
\<close>

definition init_value :: "nat \<Rightarrow> 'r::len word \<Rightarrow> 'r word" where
  "init_value k prev =
     take_bit word_size
       (initialization_multiplier * (prev XOR drop_bit (word_size - 2) prev)
        + of_nat (k mod state_size))"

fun init_from :: "nat \<Rightarrow> nat \<Rightarrow> 'r::len word \<Rightarrow> 'r word list" where
  "init_from k 0 prev = []"
| "init_from k (Suc c) prev =
     (let x = init_value k prev in x # init_from (Suc k) c x)"

definition mersenne_twister_engine :: "'r::len word \<Rightarrow> 'r mersenne_twister_engine" where
  "mersenne_twister_engine sd =
     (let x0 = take_bit word_size sd in x0 # init_from 1 (state_size - 1) x0)"

text \<open>
  The value that seeding reaches \<open>c\<close> positions after a value \<open>p\<close> at position
  \<open>k - 1\<close>, computed without the sequence in between.
\<close>

fun init_iterate :: "nat \<Rightarrow> nat \<Rightarrow> 'r::len word \<Rightarrow> 'r word" where
  "init_iterate k 0 p = p"
| "init_iterate k (Suc c) p = init_iterate (Suc k) c (init_value k p)"

text \<open>
  \<^verbatim>\<open>void seed(result_type value)\<close>: afterwards the engine equals one constructed from
  \<open>value\<close>; nothing of the state it had is kept.
\<close>

definition seed :: "'r::len word \<Rightarrow> 'r mersenne_twister_engine \<Rightarrow> 'r mersenne_twister_engine" where
  "seed sd e = mersenne_twister_engine sd"

text \<open>
  The transition: \<open>Y\<close> is the upper \<open>w - r\<close> bits of \<open>X\<^bsub>i-n\<^esub>\<close> joined with the lower
  \<open>r\<close> bits of \<open>X\<^bsub>i+1-n\<^esub>\<close>; with \<open>\<alpha> = a * (Y bitand 1)\<close>, the new value \<open>X\<^bsub>i\<^esub>\<close> is
  \<open>X\<^bsub>i+m-n\<^esub> xor (Y rshift 1) xor \<alpha>\<close>. These three values are at positions 0, 1 and \<open>m\<close>
  of the list, which a state of \<open>n\<close> values has.
\<close>

definition upper_mask :: "'r::len word" where
  "upper_mask = push_bit mask_bits (mask (word_size - mask_bits))"

definition lower_mask :: "'r::len word" where
  "lower_mask = mask mask_bits"

definition twist :: "'r::len word \<Rightarrow> 'r word \<Rightarrow> 'r word \<Rightarrow> 'r word" where
  "twist x0 x1 xm =
     (let y = (x0 AND upper_mask) OR (x1 AND lower_mask);
          alpha = xor_mask * (y AND 1)
      in xm XOR drop_bit 1 y XOR alpha)"

definition transition :: "'r::len mersenne_twister_engine \<Rightarrow> 'r word" where
  "transition X = twist (X ! 0) (X ! 1) (X ! shift_size)"

text \<open>
  The generation algorithm, which tempers the new value \<open>X\<^bsub>i\<^esub>\<close>; the left shifts are
  taken modulo \<open>2 ^ w\<close>.
\<close>

definition generation :: "'r::len word \<Rightarrow> 'r word" where
  "generation x =
     (let z1 = x XOR (drop_bit tempering_u x AND tempering_d);
          z2 = z1 XOR (take_bit word_size (push_bit tempering_s z1) AND tempering_b);
          z3 = z2 XOR (take_bit word_size (push_bit tempering_t z2) AND tempering_c);
          z4 = z3 XOR drop_bit tempering_l z3
      in z4)"

text \<open>
  \<^verbatim>\<open>result_type operator()()\<close>: advances the state by one transition and returns the
  tempered new value.
\<close>

definition call :: "'r::len mersenne_twister_engine \<Rightarrow> 'r word \<times> 'r mersenne_twister_engine" where
  "call X = (let x = transition X in (generation x, tl X @ [x]))"

text \<open>The first \<open>n\<close> values an engine delivers, in order.\<close>

fun outputs :: "nat \<Rightarrow> 'r::len mersenne_twister_engine \<Rightarrow> 'r word list" where
  "outputs 0 X = []"
| "outputs (Suc n) X = (case call X of (z, X') \<Rightarrow> z # outputs n X')"

text \<open>The state of an engine after \<open>n\<close> transitions.\<close>

fun advance :: "nat \<Rightarrow> 'r::len mersenne_twister_engine \<Rightarrow> 'r mersenne_twister_engine" where
  "advance 0 X = X"
| "advance (Suc n) X = advance n (snd (call X))"

text \<open>
  The reference MT19937 of Matsumoto and Nishimura works on 32-bit words: it is the
  engine above at a result type of exactly 32 bits.
\<close>

definition mt19937_reference :: "uint \<Rightarrow> nat \<Rightarrow> uint list" where
  "mt19937_reference s n = outputs n (mersenne_twister_engine s)"

text \<open>
  The invariant of an engine state: \<open>n\<close> values, each below \<open>2 ^ w\<close>.
\<close>

definition valid_engine :: "'r::len mersenne_twister_engine \<Rightarrow> bool" where
  "valid_engine X \<longleftrightarrow>
     length X = state_size \<and> list_all (\<lambda>x. take_bit word_size x = x) X"

section \<open>The global random device\<close>

text \<open>
  \<^verbatim>\<open>std::mutex\<close>, seen from the one thread whose calls are followed: \<^verbatim>\<open>lock()\<close> on a free
  mutex takes it; on a mutex that is held the call does not return (\<open>None\<close>).
  \<^verbatim>\<open>std::lock_guard\<close> locks in its constructor and unlocks when its scope is left.
\<close>

datatype mutex = Unlocked | Locked

fun lock :: "mutex \<Rightarrow> mutex option" where
  "lock Unlocked = Some Locked"
| "lock Locked = None"

fun unlock :: "mutex \<Rightarrow> mutex" where
  "unlock m = Unlocked"

text \<open>
  \<^verbatim>\<open>struct random_device_statics { static random_engine_type m_e; static std::mutex m_mutex; };\<close>
  The record is over the engine's type \<open>'e\<close>; the statics of the program are those at
  \<open>'e = 'r random_engine_type\<close>.
\<close>

record 'e random_device_statics =
  m_e :: 'e
  m_mutex :: mutex

type_synonym 'r statics = "'r random_engine_type random_device_statics"

text \<open>
  The initialiser of the statics, where \<open>rd\<close> is the value that \<^verbatim>\<open>std::random_device()()\<close>
  delivered:
  \<^verbatim>\<open>m_e(static_cast<random_engine_type::result_type>(std::random_device()()))\<close>;
  the mutex is default-constructed, hence free.
\<close>

definition random_device_statics_init :: "uint \<Rightarrow> ('r::len) statics" where
  "random_device_statics_init rd =
     \<lparr> m_e = mersenne_twister_engine (ucast rd), m_mutex = Unlocked \<rparr>"

text \<open>
  \<^verbatim>\<open>static unsigned int next()
  { std::lock_guard<std::mutex> lock(m_mutex); return static_cast<unsigned int>(m_e()); }\<close>
\<close>

definition random_device_next ::
  "('r::len) statics \<Rightarrow> (uint \<times> 'r statics) option" where
  "random_device_next st =
     (case lock (m_mutex st) of
        None \<Rightarrow> None
      | Some mu \<Rightarrow>
          (let st1 = st\<lparr>m_mutex := mu\<rparr>;
               (r, e) = call (m_e st1);
               st2 = st1\<lparr>m_e := e\<rparr>;
               ret = (ucast r :: uint)
           in Some (ret, st2\<lparr>m_mutex := unlock (m_mutex st2)\<rparr>)))"

text \<open>
  \<^verbatim>\<open>static void set_seed(unsigned int seed)
  { std::lock_guard<std::mutex> lock(m_mutex);
    m_e.seed(static_cast<detail::random_engine_type::result_type>(seed)); }\<close>
\<close>

definition random_device_set_seed ::
  "uint \<Rightarrow> ('r::len) statics \<Rightarrow> 'r statics option" where
  "random_device_set_seed sd st =
     (case lock (m_mutex st) of
        None \<Rightarrow> None
      | Some mu \<Rightarrow>
          (let st1 = st\<lparr>m_mutex := mu\<rparr>;
               st2 = st1\<lparr>m_e := seed (ucast sd) (m_e st1)\<rparr>
           in Some (st2\<lparr>m_mutex := unlock (m_mutex st2)\<rparr>)))"

text \<open>
  A client thread: the calls it makes on the device, one after the other. \<open>run\<close>
  performs them in order and collects the values that the \<^verbatim>\<open>next()\<close> calls return;
  it is \<open>None\<close> when a call does not return.
\<close>

datatype request = Next | Set_seed uint

fun run :: "request list \<Rightarrow> ('r::len) statics \<Rightarrow> (uint list \<times> 'r statics) option" where
  "run [] st = Some ([], st)"
| "run (Next # cs) st =
     (case random_device_next st of
        None \<Rightarrow> None
      | Some (v, st1) \<Rightarrow>
          (case run cs st1 of
             None \<Rightarrow> None
           | Some (vs, st2) \<Rightarrow> Some (v # vs, st2)))"
| "run (Set_seed sd # cs) st =
     (case random_device_set_seed sd st of
        None \<Rightarrow> None
      | Some st1 \<Rightarrow> run cs st1)"

section \<open>The start of the process\<close>



section \<open>Properties of the engine\<close>

subsection \<open>Casts between the result type and 32-bit words\<close>

text \<open>
  The engine at a result type of at least 32 bits does what the engine at 32 bits does,
  value for value: the cast down to 32 bits respects sums and products, the cast up
  respects the bitwise operations and the shifts taken modulo \<open>2 ^ 32\<close>.
\<close>

lemma down_mult:
  assumes "32 \<le> LENGTH('r::len)"
  shows "(ucast (a * b :: 'r word) :: 32 word) = ucast a * ucast b"
proof -
  have d: "(2::nat) ^ 32 dvd 2 ^ LENGTH('r)"
    using assms by (rule le_imp_power_dvd)
  have "unat (ucast (a * b) :: 32 word) = (unat a * unat b) mod 2 ^ 32"
    using d by (simp add: unsigned_ucast_eq take_bit_eq_mod unat_word_ariths mod_mod_cancel)
  also have "\<dots> = unat (ucast a * ucast b :: 32 word)"
    by (simp add: unsigned_ucast_eq take_bit_eq_mod unat_word_ariths mod_mult_eq)
  finally show ?thesis
    by (simp add: word_unat_eq_iff)
qed

lemma down_add:
  assumes "32 \<le> LENGTH('r::len)"
  shows "(ucast (a + b :: 'r word) :: 32 word) = ucast a + ucast b"
proof -
  have d: "(2::nat) ^ 32 dvd 2 ^ LENGTH('r)"
    using assms by (rule le_imp_power_dvd)
  have "unat (ucast (a + b) :: 32 word) = (unat a + unat b) mod 2 ^ 32"
    using d by (simp add: unsigned_ucast_eq take_bit_eq_mod unat_word_ariths mod_mod_cancel)
  also have "\<dots> = unat (ucast a + ucast b :: 32 word)"
    by (simp add: unsigned_ucast_eq take_bit_eq_mod unat_word_ariths mod_add_eq)
  finally show ?thesis
    by (simp add: word_unat_eq_iff)
qed

lemma up_down:
  "32 \<le> LENGTH('r::len) \<Longrightarrow>
     (ucast (ucast (a :: 'r word) :: 32 word) :: 'r word) = take_bit 32 a"
  by (rule bit_word_eqI) (auto simp add: bit_simps)

lemma down_up:
  "32 \<le> LENGTH('r::len) \<Longrightarrow> (ucast (ucast (a :: 32 word) :: 'r word) :: 32 word) = a"
  by (rule bit_word_eqI) (auto simp add: bit_simps)

lemma down_of_nat:
  assumes "32 \<le> LENGTH('r::len)"
  shows "(ucast (of_nat n :: 'r word) :: 32 word) = of_nat n"
proof -
  have d: "(2::nat) ^ 32 dvd 2 ^ LENGTH('r)"
    using assms by (rule le_imp_power_dvd)
  show ?thesis using d
    by (simp add: word_unat_eq_iff unsigned_ucast_eq take_bit_eq_mod unat_of_nat mod_mod_cancel)
qed

lemma down_numeral:
  "32 \<le> LENGTH('r::len) \<Longrightarrow> (ucast (numeral n :: 'r word) :: 32 word) = numeral n"
  by (rule ucast_down_no) (simp add: is_down)

lemma up_shift:
  "32 \<le> LENGTH('r::len) \<Longrightarrow>
     take_bit 32 (push_bit s (ucast (z :: 32 word) :: 'r word)) = ucast (push_bit s z)"
  by (rule bit_word_eqI) (auto simp add: bit_simps)

lemma up_drop:
  "32 \<le> LENGTH('r::len) \<Longrightarrow>
     drop_bit s (ucast (z :: 32 word) :: 'r word) = ucast (drop_bit s z)"
  by (simp add: ucast_drop_bit_eq)

lemma times_and_1: "a * (y AND 1) = (if bit y 0 then a else 0)" for a y :: "'a::len word"
  by (simp add: and_one_eq mod_2_eq_odd bit_0)

lemma up_bit0: "bit (ucast (y :: 32 word) :: 'r::len word) 0 = bit y 0"
  by (simp add: bit_simps)

lemma up_const:
  "32 \<le> LENGTH('r::len) \<Longrightarrow> (ucast (xor_mask :: 32 word) :: 'r word) = xor_mask"
  "32 \<le> LENGTH('r::len) \<Longrightarrow> (ucast (tempering_b :: 32 word) :: 'r word) = tempering_b"
  "32 \<le> LENGTH('r::len) \<Longrightarrow> (ucast (tempering_c :: 32 word) :: 'r word) = tempering_c"
  "32 \<le> LENGTH('r::len) \<Longrightarrow> (ucast (tempering_d :: 32 word) :: 'r word) = tempering_d"
  by (simp_all add: xor_mask_def tempering_b_def tempering_c_def tempering_d_def)

lemma up_masks:
  "32 \<le> LENGTH('r::len) \<Longrightarrow> (ucast (upper_mask :: 32 word) :: 'r word) = upper_mask"
  "32 \<le> LENGTH('r::len) \<Longrightarrow> (ucast (lower_mask :: 32 word) :: 'r word) = lower_mask"
  unfolding upper_mask_def lower_mask_def mask_bits_def word_size_def
  by (rule bit_word_eqI; auto simp add: bit_simps)+

lemma take_bit_uint: "take_bit word_size (w :: uint) = w"
  by (simp add: word_size_def take_bit_word_eq_self)

lemma down_multiplier:
  "32 \<le> LENGTH('r::len) \<Longrightarrow>
     (ucast (initialization_multiplier :: 'r word) :: 32 word) = initialization_multiplier"
  unfolding initialization_multiplier_def by (rule down_numeral)

lemma init_value_ucast:
  assumes "32 \<le> LENGTH('r::len)"
  shows "init_value k (ucast (p :: 32 word) :: 'r word) = ucast (init_value k p)"
proof -
  let ?E = "initialization_multiplier * (ucast p XOR drop_bit (word_size - 2) (ucast p))
              + of_nat (k mod state_size) :: 'r word"
  have "ucast p XOR drop_bit (word_size - 2) (ucast p :: 'r word)
          = ucast (p XOR drop_bit (word_size - 2) p)"
    using assms by (simp add: up_drop unsigned_xor_eq)
  then have "(ucast ?E :: 32 word)
          = initialization_multiplier * (p XOR drop_bit (word_size - 2) p)
            + of_nat (k mod state_size)"
    using assms
    by (simp add: down_add down_mult down_of_nat down_multiplier down_up)
  moreover have "init_value k (ucast p :: 'r word) = ucast (ucast ?E :: 32 word)"
    using assms by (simp add: init_value_def up_down word_size_def)
  ultimately show ?thesis
    by (simp add: init_value_def take_bit_uint)
qed

lemma init_from_ucast:
  assumes "32 \<le> LENGTH('r::len)"
  shows "init_from k c (ucast (p :: 32 word) :: 'r word) = map ucast (init_from k c p)"
  using assms by (induction c arbitrary: k p) (simp_all add: init_value_ucast Let_def)

lemma engine_ucast:
  assumes "32 \<le> LENGTH('r::len)"
  shows "mersenne_twister_engine (sd :: 'r word)
           = map ucast (mersenne_twister_engine (ucast sd :: 32 word))"
proof -
  have "take_bit word_size sd = (ucast (ucast sd :: 32 word) :: 'r word)"
    using assms by (simp add: up_down word_size_def)
  then show ?thesis
    using assms by (simp add: mersenne_twister_engine_def Let_def init_from_ucast take_bit_uint)
qed

lemma twist_ucast:
  assumes "32 \<le> LENGTH('r::len)"
  shows "twist (ucast (a :: 32 word)) (ucast (b :: 32 word)) (ucast (c :: 32 word))
           = (ucast (twist a b c) :: 'r word)"
proof -
  let ?y = "(a AND upper_mask) OR (b AND lower_mask)"
  have y: "(ucast a AND upper_mask) OR (ucast b AND lower_mask) = (ucast ?y :: 'r word)"
    using assms by (simp add: unsigned_or_eq unsigned_and_eq up_masks)
  show ?thesis
    using assms
    by (simp add: twist_def Let_def y times_and_1 up_bit0 up_drop unsigned_xor_eq up_const)
qed

lemma generation_ucast:
  assumes "32 \<le> LENGTH('r::len)"
  shows "generation (ucast (x :: 32 word)) = (ucast (generation x) :: 'r word)"
proof -
  define z1 where "z1 = x XOR (drop_bit tempering_u x AND tempering_d)"
  define z2 where "z2 = z1 XOR (take_bit word_size (push_bit tempering_s z1) AND tempering_b)"
  define z3 where "z3 = z2 XOR (take_bit word_size (push_bit tempering_t z2) AND tempering_c)"
  have 1: "ucast x XOR (drop_bit tempering_u (ucast x) AND tempering_d) = (ucast z1 :: 'r word)"
    unfolding z1_def using assms
    by (simp add: unsigned_xor_eq unsigned_and_eq up_drop up_const)
  have 2: "ucast z1 XOR (take_bit word_size (push_bit tempering_s (ucast z1)) AND tempering_b)
             = (ucast z2 :: 'r word)"
    unfolding z2_def using assms up_shift [OF assms, of tempering_s z1]
    by (simp add: unsigned_xor_eq unsigned_and_eq up_const word_size_def take_bit_word_eq_self)
  have 3: "ucast z2 XOR (take_bit word_size (push_bit tempering_t (ucast z2)) AND tempering_c)
             = (ucast z3 :: 'r word)"
    unfolding z3_def using assms up_shift [OF assms, of tempering_t z2]
    by (simp add: unsigned_xor_eq unsigned_and_eq up_const word_size_def take_bit_word_eq_self)
  have 4: "ucast z3 XOR drop_bit tempering_l (ucast z3)
             = (ucast (z3 XOR drop_bit tempering_l z3) :: 'r word)"
    using assms by (simp add: unsigned_xor_eq up_drop)
  have L: "generation (ucast x :: 'r word) = ucast (z3 XOR drop_bit tempering_l z3)"
    by (simp only: generation_def Let_def 1 2 3 4)
  have R: "generation x = z3 XOR drop_bit tempering_l z3"
    by (simp only: generation_def Let_def z1_def z2_def z3_def)
  show ?thesis
    by (simp only: L R)
qed

lemma length_engine: "length (mersenne_twister_engine sd) = state_size"
proof -
  have "length (init_from k c p) = c" for k c and p :: "'a word"
    by (induction c arbitrary: k p) (simp_all add: Let_def)
  then show ?thesis
    by (simp add: mersenne_twister_engine_def Let_def state_size_def)
qed

lemma length_call: "X \<noteq> [] \<Longrightarrow> length (snd (call X)) = length X"
  by (simp add: call_def Let_def)

lemma call_ucast:
  assumes "32 \<le> LENGTH('r::len)" and "length X = state_size"
  shows "call (map ucast (X :: 32 word list)) =
           (ucast (fst (call X)) :: 'r word, map ucast (snd (call X)))"
  using assms
  by (simp add: call_def Let_def transition_def state_size_def shift_size_def
      twist_ucast generation_ucast map_tl)

lemma outputs_ucast:
  assumes "32 \<le> LENGTH('r::len)" and "length X = state_size"
  shows "outputs n (map ucast (X :: 32 word list))
           = (map ucast (outputs n X) :: 'r word list)"
  using assms
proof (induction n arbitrary: X)
  case 0
  then show ?case by simp
next
  case (Suc n)
  have ne: "X \<noteq> []" using Suc.prems by (auto simp add: state_size_def)
  have len: "length (snd (call X)) = state_size"
    using Suc.prems ne by (simp add: length_call)
  show ?case
    using Suc.prems Suc.IH [OF Suc.prems(1) len]
    by (simp add: call_ucast split: prod.splits)
qed

subsection \<open>The invariant of the engine state\<close>

lemma take_bit_short:
  "LENGTH('r::len) \<le> 32 \<Longrightarrow> take_bit word_size (x :: 'r word) = x"
  by (simp add: word_size_def take_bit_word_eq_self)

lemma take_bit_ucast:
  "take_bit word_size (ucast (x :: uint) :: 'r::len word) = ucast x"
  by (rule bit_word_eqI) (auto simp add: bit_simps word_size_def dest: bit_imp_le_length)

lemma valid_engine_map_ucast:
  "length X = state_size \<Longrightarrow> valid_engine (map ucast (X :: uint list) :: 'r::len word list)"
  by (simp add: valid_engine_def list_all_iff take_bit_ucast)

lemma valid_engine_is_map_ucast:
  assumes "32 \<le> LENGTH('r::len)" and "valid_engine (X :: 'r word list)"
  shows "X = map ucast (map ucast X :: uint list)"
proof -
  have "ucast (ucast x :: uint) = x" if "x \<in> set X" for x
    using that assms by (simp add: up_down valid_engine_def list_all_iff word_size_def)
  then show ?thesis
    by (simp add: map_idI)
qed

lemma valid_engine_seed: "valid_engine (mersenne_twister_engine (sd :: 'r::len word))"
proof (cases "32 \<le> LENGTH('r)")
  case True
  then show ?thesis
    by (simp add: engine_ucast [of sd] valid_engine_map_ucast length_engine)
next
  case False
  then have "LENGTH('r) \<le> 32" by simp
  then show ?thesis
    by (simp add: valid_engine_def length_engine list_all_iff take_bit_short)
qed

lemma valid_engine_call:
  assumes "valid_engine (X :: 'r::len word list)"
  shows "valid_engine (snd (call X))"
proof (cases "32 \<le> LENGTH('r)")
  case True
  let ?Y = "map ucast X :: uint list"
  have X: "X = map ucast ?Y"
    using True assms by (rule valid_engine_is_map_ucast)
  have len: "length ?Y = state_size"
    using assms by (simp add: valid_engine_def)
  then have ne: "?Y \<noteq> []"
    by (auto simp add: state_size_def)
  have "snd (call (map ucast ?Y :: 'r word list)) = map ucast (snd (call ?Y))"
    by (simp only: call_ucast [OF True len] snd_conv)
  moreover have "valid_engine (map ucast (snd (call ?Y)) :: 'r word list)"
    using len ne by (simp add: valid_engine_map_ucast length_call)
  ultimately show ?thesis
    using X by simp
next
  case False
  then have short: "LENGTH('r) \<le> 32" by simp
  have "X \<noteq> []"
    using assms by (auto simp add: valid_engine_def state_size_def)
  then have "length (snd (call X)) = state_size"
    using assms by (simp add: length_call valid_engine_def)
  then show ?thesis
    using short by (simp add: valid_engine_def list_all_iff take_bit_short)
qed

lemma call_value_bounded:
  assumes "valid_engine (X :: 'r::len word list)"
  shows "unat (fst (call X)) < 2 ^ 32"
proof (cases "32 \<le> LENGTH('r)")
  case True
  let ?Y = "map ucast X :: uint list"
  have X: "X = map ucast ?Y"
    using True assms by (rule valid_engine_is_map_ucast)
  have len: "length ?Y = state_size"
    using assms by (simp add: valid_engine_def)
  have "fst (call (map ucast ?Y :: 'r word list)) = ucast (fst (call ?Y))"
    by (simp only: call_ucast [OF True len] fst_conv)
  then have "fst (call X) = ucast (fst (call ?Y))"
    using X by simp
  moreover have "unat (ucast (w :: uint) :: 'r word) < 2 ^ 32" for w
  proof -
    have "unat (ucast w :: 'r word) \<le> unat w"
      by (simp add: unsigned_ucast_eq take_bit_nat_less_eq_self)
    moreover have "unat w < 2 ^ 32"
      using unsigned_less [of w, where 'a = nat] by simp
    ultimately show ?thesis
      by (rule le_less_trans)
  qed
  ultimately show ?thesis
    by simp
next
  case False
  then have "LENGTH('r) \<le> 32"
    by simp
  then have "(2::nat) ^ LENGTH('r) \<le> 2 ^ 32"
    by (rule power_increasing) simp
  moreover have "unat (fst (call X)) < 2 ^ LENGTH('r)"
    by (rule unsigned_less)
  ultimately show ?thesis
    by (rule less_le_trans [rotated])
qed

lemma ucast_value_preserved:
  "unat (r :: 'r::len word) < 2 ^ 32 \<Longrightarrow> unat (ucast r :: uint) = unat r"
  by (simp add: unsigned_ucast_eq take_bit_nat_eq_self)

subsection \<open>The calls of the device\<close>

lemma next_unlocked:
  "m_mutex st = Unlocked \<Longrightarrow>
     random_device_next st = Some (ucast (fst (call (m_e st))), st\<lparr>m_e := snd (call (m_e st))\<rparr>)"
  by (simp add: random_device_next_def Let_def split: prod.splits)

lemma next_locked: "m_mutex st = Locked \<Longrightarrow> random_device_next st = None"
  by (simp add: random_device_next_def)

lemma set_seed_unlocked:
  "m_mutex st = Unlocked \<Longrightarrow>
     random_device_set_seed sd st = Some (st\<lparr>m_e := mersenne_twister_engine (ucast sd)\<rparr>)"
  by (simp add: random_device_set_seed_def Let_def seed_def)

lemma set_seed_locked: "m_mutex st = Locked \<Longrightarrow> random_device_set_seed sd st = None"
  by (simp add: random_device_set_seed_def)

lemma run_draws:
  "m_mutex st = Unlocked \<Longrightarrow>
     run (replicate n Next) st
       = Some (map ucast (outputs n (m_e st)), st\<lparr>m_e := advance n (m_e st)\<rparr>)"
  by (induction n arbitrary: st) (simp_all add: next_unlocked split: prod.splits)

lemma run_append:
  "run (cs @ ds) st =
     (case run cs st of
        None \<Rightarrow> None
      | Some (vs, st1) \<Rightarrow>
          (case run ds st1 of
             None \<Rightarrow> None
           | Some (ws, st2) \<Rightarrow> Some (vs @ ws, st2)))"
  by (induction cs st rule: run.induct) (simp_all split: option.splits prod.splits)

lemma run_total:
  "m_mutex st = Unlocked \<Longrightarrow>
     \<exists>vs st'. run cs st = Some (vs, st') \<and> m_mutex st' = Unlocked
        \<and> length vs = length (filter (\<lambda>c. c = Next) cs)"
proof (induction cs arbitrary: st)
  case Nil
  then show ?case by simp
next
  case (Cons c cs)
  show ?case
  proof (cases c)
    case Next
    let ?st1 = "st\<lparr>m_e := snd (call (m_e st))\<rparr>"
    have "m_mutex ?st1 = Unlocked" using Cons.prems by simp
    from Cons.IH [OF this] show ?thesis
      using Cons.prems Next by (auto simp add: next_unlocked)
  next
    case (Set_seed sd)
    let ?st1 = "st\<lparr>m_e := mersenne_twister_engine (ucast sd)\<rparr>"
    have "m_mutex ?st1 = Unlocked" using Cons.prems by simp
    from Cons.IH [OF this] show ?thesis
      using Cons.prems Set_seed by (auto simp add: set_seed_unlocked)
  qed
qed

lemma seed_then_draws:
  "m_mutex st = Unlocked \<Longrightarrow>
     run (Set_seed s # replicate n Next) st
       = Some (map ucast (outputs n (mersenne_twister_engine (ucast s :: 'r word))),
               st\<lparr>m_e := advance n (mersenne_twister_engine (ucast s))\<rparr>)"
  for st :: "'r::len statics"
  by (simp add: set_seed_unlocked run_draws)

lemma outputs_reference:
  assumes "32 \<le> LENGTH('r::len)"
  shows "map ucast (outputs n (mersenne_twister_engine (ucast (s :: uint) :: 'r word)))
           = mt19937_reference s n"
proof -
  have "mersenne_twister_engine (ucast s :: 'r word) = map ucast (mersenne_twister_engine s)"
    using assms by (simp add: engine_ucast [of "ucast s"] down_up)
  then have "outputs n (mersenne_twister_engine (ucast s :: 'r word))
               = map ucast (outputs n (mersenne_twister_engine s))"
    using assms by (simp add: outputs_ucast length_engine)
  then show ?thesis
    using assms by (simp add: mt19937_reference_def down_up comp_def)
qed

subsection \<open>The first values of the engine seeded with 42\<close>

text \<open>
  The first \<open>n - m\<close> transitions after seeding read values of the seeding sequence
  only, so the first three outputs need \<open>X\<^bsub>0\<^esub>, \<dots>, X\<^bsub>3\<^esub>\<close> and
  \<open>X\<^bsub>397\<^esub>, \<dots>, X\<^bsub>399\<^esub>\<close> of it.
\<close>

lemma init_from_nth:
  "j < c \<Longrightarrow> init_from k c p ! j = init_iterate k (Suc j) p"
proof (induction c arbitrary: k p j)
  case 0
  then show ?case by simp
next
  case (Suc c)
  then show ?case
    by (cases j) (simp_all add: Let_def)
qed

lemma engine_nth:
  "j < state_size \<Longrightarrow>
     mersenne_twister_engine sd ! j = init_iterate 1 j (take_bit word_size sd)"
  by (cases j) (simp_all add: mersenne_twister_engine_def Let_def init_from_nth)

lemma advance_nth:
  "i + j < length X \<Longrightarrow> advance j X ! i = X ! (i + j)"
proof (induction j arbitrary: X)
  case 0
  then show ?case by simp
next
  case (Suc j)
  then have ne: "X \<noteq> []" by auto
  have "advance (Suc j) X ! i = (tl X @ [transition X]) ! (i + j)"
    using Suc.prems ne Suc.IH [of "snd (call X)"] by (simp add: call_def Let_def)
  also have "\<dots> = X ! (i + Suc j)"
  proof -
    have "i + j < length (tl X)"
      using Suc.prems by simp
    then show ?thesis
      by (simp add: nth_append nth_tl)
  qed
  finally show ?case .
qed

lemma transition_advance:
  "j + shift_size < length X \<Longrightarrow>
     transition (advance j X) = twist (X ! j) (X ! Suc j) (X ! (shift_size + j))"
  using advance_nth [of 0 j X] advance_nth [of 1 j X] advance_nth [of shift_size j X]
  by (simp add: transition_def shift_size_def)

lemma outputs_nth:
  "outputs (Suc n) X = outputs n X @ [generation (transition (advance n X))]"
  by (induction n arbitrary: X) (simp_all add: call_def Let_def)


lemma init_iterate_Suc:
  "init_iterate k (Suc c) p = init_value (k + c) (init_iterate k c p)"
  by (induction c arbitrary: k p) simp_all

lemma engine_nth_Suc:
  "Suc j < state_size \<Longrightarrow>
     mersenne_twister_engine sd ! Suc j = init_value (Suc j) (mersenne_twister_engine sd ! j)"
  by (simp only: engine_nth Suc_lessD init_iterate_Suc plus_1_eq_Suc)

lemma seeded_42_chain: "init_iterate 1 397 (42 :: uint) = 2930777301"
  by code_simp

lemma seeded_42_values:
  "init_value 1 (42 :: uint) = 3107752595"
  "init_value 2 (3107752595 :: uint) = 1895908407"
  "init_value 3 (1895908407 :: uint) = 3900362577"
  "init_value 398 (2930777301 :: uint) = 2831905121"
  "init_value 399 (2831905121 :: uint) = 1436989598"
  by code_simp+

lemma seeded_42_outputs:
  "generation (twist (42 :: uint) 3107752595 2930777301) = 1608637542"
  "generation (twist (3107752595 :: uint) 1895908407 2831905121) = 3421126067"
  "generation (twist (1895908407 :: uint) 3900362577 1436989598) = 4083286876"
  by code_simp+

lemma mt19937_reference_42:
  "mt19937_reference 42 3 = [1608637542, 3421126067, 4083286876]"
proof -
  let ?X = "mersenne_twister_engine (42 :: uint)"
  have len: "length ?X = 624"
    by (simp add: length_engine state_size_def)
  have step: "?X ! j = init_value j (?X ! i)" if "j = Suc i" and "j < 624" for i j
    using that engine_nth_Suc [of i "42 :: uint"] by (simp add: state_size_def)
  have x0: "?X ! 0 = 42"
    using engine_nth [of 0 "42 :: uint"] by (simp add: state_size_def take_bit_uint)
  have x1: "?X ! 1 = 3107752595"
  proof -
    have "?X ! 1 = init_value 1 (?X ! 0)"
      by (rule step) simp_all
    then show ?thesis
      by (simp only: x0 seeded_42_values)
  qed
  have x2: "?X ! 2 = 1895908407"
  proof -
    have "?X ! 2 = init_value 2 (?X ! 1)"
      by (rule step) simp_all
    then show ?thesis
      by (simp only: x1 seeded_42_values)
  qed
  have x3: "?X ! 3 = 3900362577"
  proof -
    have "?X ! 3 = init_value 3 (?X ! 2)"
      by (rule step) simp_all
    then show ?thesis
      by (simp only: x2 seeded_42_values)
  qed
  have x397: "?X ! 397 = 2930777301"
  proof -
    have "?X ! 397 = init_iterate 1 397 (take_bit word_size 42)"
      by (rule engine_nth) (simp add: state_size_def)
    then show ?thesis
      by (simp only: take_bit_uint seeded_42_chain)
  qed
  have x398: "?X ! 398 = 2831905121"
  proof -
    have "?X ! 398 = init_value 398 (?X ! 397)"
      by (rule step) simp_all
    then show ?thesis
      by (simp only: x397 seeded_42_values)
  qed
  have x399: "?X ! 399 = 1436989598"
  proof -
    have "?X ! 399 = init_value 399 (?X ! 398)"
      by (rule step) simp_all
    then show ?thesis
      by (simp only: x398 seeded_42_values)
  qed
  have t0: "transition (advance 0 ?X) = twist (?X ! 0) (?X ! 1) (?X ! 397)"
    using transition_advance [of 0 ?X] by (simp add: len shift_size_def)
  have t1: "transition (advance 1 ?X) = twist (?X ! 1) (?X ! 2) (?X ! 398)"
    using transition_advance [of 1 ?X] by (simp add: len shift_size_def numeral_2_eq_2)
  have t2: "transition (advance 2 ?X) = twist (?X ! 2) (?X ! 3) (?X ! 399)"
    using transition_advance [of 2 ?X] by (simp add: len shift_size_def)
  note t = t0 t1 t2 x0 x1 x2 x3 x397 x398 x399
  have "outputs 3 ?X = [generation (transition (advance 0 ?X)),
      generation (transition (advance 1 ?X)), generation (transition (advance 2 ?X))]"
    using outputs_nth [of 2 ?X] outputs_nth [of 1 ?X] outputs_nth [of 0 ?X]
    by (simp add: numeral_3_eq_3 numeral_2_eq_2)
  then show ?thesis
    by (simp only: mt19937_reference_def t seeded_42_outputs)
qed

subsection \<open>Sequences of calls\<close>


lemma init_unlocked: "m_mutex (random_device_statics_init rd) = Unlocked"
  by (simp add: random_device_statics_init_def)

lemma init_engine: "m_e (random_device_statics_init rd) = mersenne_twister_engine (ucast rd)"
  by (simp add: random_device_statics_init_def)


section \<open>The claims\<close>

text \<open>
  C1: For every 32-bit seed \<open>s\<close> and every count \<open>n\<close>, \<^verbatim>\<open>set_seed(s)\<close> followed by \<open>n\<close>
  calls of \<^verbatim>\<open>next()\<close> from one thread returns exactly the first \<open>n\<close> outputs of the
  reference MT19937 seeded with \<open>s\<close>, whatever the state of the device before and
  whatever the width (at least 32 bits) of the engine's result type; the result depends
  on \<open>s\<close> and \<open>n\<close> only, so repeating the procedure repeats the sequence. After
  \<^verbatim>\<open>set_seed(42)\<close> the first three values are 1608637542, 3421126067, 4083286876.
\<close>

theorem set_seed_then_next_is_mt19937:
  fixes st :: "'r::len statics"
  assumes "32 \<le> LENGTH('r)" and "m_mutex st = Unlocked"
  shows "map_option fst (run (Set_seed s # replicate n Next) st) = Some (mt19937_reference s n)
       \<and> map_option fst (run [Set_seed 42, Next, Next, Next] st)
           = Some [1608637542, 3421126067, 4083286876]"
proof -
  have general: "map_option fst (run (Set_seed s # replicate n Next) st)
        = Some (mt19937_reference s n)" for s n
    using assms by (simp only: seed_then_draws outputs_reference option.map fst_conv)
  have "[Set_seed 42, Next, Next, Next] = Set_seed 42 # replicate 3 Next"
    by (simp add: numeral_3_eq_3)
  then show ?thesis
    by (simp only: general mt19937_reference_42)
qed

theorem set_seed_then_next_is_mt19937_witness:
  "32 \<le> LENGTH(64) \<and> m_mutex (random_device_statics_init 7 :: 64 statics) = Unlocked
   \<and> map_option fst (run (Set_seed 5489 # replicate 2 Next) (random_device_statics_init 7 :: 64 statics))
        = Some (mt19937_reference 5489 2)
   \<and> map_option fst (run [Set_seed 42, Next, Next, Next] (random_device_statics_init 7 :: 64 statics))
        = Some [1608637542, 3421126067, 4083286876]"
proof -
  have h1: "32 \<le> LENGTH(64)"
    by simp
  have h2: "m_mutex (random_device_statics_init 7 :: 64 statics) = Unlocked"
    by (simp add: random_device_statics_init_def)
  show ?thesis
    using h1 h2 set_seed_then_next_is_mt19937 [OF h1 h2, of 5489 2] by blast
qed


text \<open>
  C2: \<^verbatim>\<open>set_seed(s)\<close> and \<open>k\<close> draws, followed by \<^verbatim>\<open>set_seed(s)\<close> again and another \<open>k\<close>
  draws, returns one sequence of \<open>k\<close> values twice, whatever the state of the engine
  before the first reseed (and before the second one, which is the state left by the
  first \<open>k\<close> draws).
\<close>

theorem reseed_repeats_sequence:
  fixes st :: "'r::len statics"
  assumes "m_mutex st = Unlocked"
  shows "\<exists>vs st'. run (Set_seed s # replicate k Next @ Set_seed s # replicate k Next) st
                     = Some (vs @ vs, st') \<and> length vs = k"
proof -
  let ?E = "mersenne_twister_engine (ucast s :: 'r word)"
  let ?vs = "map ucast (outputs k ?E) :: uint list"
  let ?st1 = "st\<lparr>m_e := advance k ?E\<rparr>"
  have first: "run (Set_seed s # replicate k Next) st = Some (?vs, ?st1)"
    using assms by (rule seed_then_draws)
  have "m_mutex ?st1 = Unlocked"
    using assms by simp
  then have second: "run (Set_seed s # replicate k Next) ?st1 = Some (?vs, ?st1)"
    using seed_then_draws [of ?st1 s k] by simp
  have "length (outputs n X) = n" for n and X :: "'r word list"
    by (induction n arbitrary: X) (simp_all split: prod.splits)
  then have len: "length ?vs = k"
    by simp
  have "run ((Set_seed s # replicate k Next) @ (Set_seed s # replicate k Next)) st
          = Some (?vs @ ?vs, ?st1)"
    by (simp only: run_append first second option.case prod.case)
  then show ?thesis
    using len by (intro exI [of _ ?vs] exI [of _ ?st1]) simp
qed

theorem reseed_repeats_sequence_witness:
  "m_mutex (random_device_statics_init 7 :: 64 statics) = Unlocked
   \<and> (\<exists>vs st'. run (Set_seed 42 # replicate 3 Next @ Set_seed 42 # replicate 3 Next)
                    (random_device_statics_init 7 :: 64 statics) = Some (vs @ vs, st')
                \<and> length vs = 3)"
proof -
  have h: "m_mutex (random_device_statics_init 7 :: 64 statics) = Unlocked"
    by (simp add: random_device_statics_init_def)
  show ?thesis
    using h reseed_repeats_sequence [OF h, of 42 3] by blast
qed

text \<open>
  C3: From every prior state (with the mutex free, as it is between calls) and for every
  32-bit seed \<open>s\<close>, \<^verbatim>\<open>set_seed(s)\<close> leaves the statics in a state that is a function of
  \<open>s\<close> alone: two prior states give the same state afterwards, its engine is the
  initial state of MT19937 for \<open>s\<close> (the 32-bit values held in the result type), and
  whatever calls \<open>cs\<close> follow return the same values.
\<close>

theorem set_seed_state_is_function_of_seed:
  fixes st st' :: "'r::len statics"
  assumes "32 \<le> LENGTH('r)" and "m_mutex st = Unlocked" and "m_mutex st' = Unlocked"
  shows "random_device_set_seed s st = random_device_set_seed s st'
       \<and> map_option m_e (random_device_set_seed s st)
           = Some (map ucast (mersenne_twister_engine s))
       \<and> map_option fst (Option.bind (random_device_set_seed s st) (run cs))
           = map_option fst (Option.bind (random_device_set_seed s st') (run cs))"
proof -
  let ?E = "mersenne_twister_engine (ucast s :: 'r word)"
  have "st\<lparr>m_e := ?E\<rparr> = st'\<lparr>m_e := ?E\<rparr>"
    using assms(2,3) by (cases st, cases st') simp
  then have same: "random_device_set_seed s st = random_device_set_seed s st'"
    using assms(2,3) by (simp add: set_seed_unlocked)
  have "?E = map ucast (mersenne_twister_engine s)"
    using assms(1) by (simp add: engine_ucast [of "ucast s"] down_up)
  then have "map_option m_e (random_device_set_seed s st)
               = Some (map ucast (mersenne_twister_engine s))"
    using assms(2) by (simp add: set_seed_unlocked)
  then show ?thesis
    by (simp only: same simp_thms)
qed

theorem set_seed_state_is_function_of_seed_witness:
  "32 \<le> LENGTH(64)
   \<and> m_mutex (random_device_statics_init 7 :: 64 statics) = Unlocked
   \<and> m_mutex (random_device_statics_init 8 :: 64 statics) = Unlocked
   \<and> random_device_set_seed 42 (random_device_statics_init 7 :: 64 statics)
       = random_device_set_seed 42 (random_device_statics_init 8)
   \<and> map_option m_e (random_device_set_seed 42 (random_device_statics_init 7 :: 64 statics))
       = Some (map ucast (mersenne_twister_engine (42 :: uint)))
   \<and> map_option fst (Option.bind (random_device_set_seed 42 (random_device_statics_init 7 :: 64 statics)) (run [Next, Next]))
       = map_option fst (Option.bind (random_device_set_seed 42 (random_device_statics_init 8 :: 64 statics)) (run [Next, Next]))"
proof -
  have h1: "32 \<le> LENGTH(64)"
    by simp
  have h2: "m_mutex (random_device_statics_init 7 :: 64 statics) = Unlocked"
    by (rule init_unlocked)
  have h3: "m_mutex (random_device_statics_init 8 :: 64 statics) = Unlocked"
    by (rule init_unlocked)
  show ?thesis
    using h1 h2 h3 set_seed_state_is_function_of_seed [OF h1 h2 h3, of 42 "[Next, Next]"]
    by blast
qed




text \<open>
  C6: With the mutex free, \<^verbatim>\<open>next()\<close> returns a value, \<^verbatim>\<open>set_seed(sd)\<close> returns for every
  32-bit \<open>sd\<close> (zero included), both leave the mutex free, and so every finite
  sequence of calls runs to its end, returning one value for each \<^verbatim>\<open>next()\<close> in it.
  Neither call has an error result.
\<close>

theorem calls_are_total:
  fixes st :: "'r::len statics"
  assumes "m_mutex st = Unlocked"
  shows "(\<exists>v st'. random_device_next st = Some (v, st') \<and> m_mutex st' = Unlocked)
       \<and> (\<exists>st'. random_device_set_seed sd st = Some st' \<and> m_mutex st' = Unlocked)
       \<and> (\<exists>vs st'. run cs st = Some (vs, st') \<and> m_mutex st' = Unlocked
             \<and> length vs = length (filter (\<lambda>c. c = Next) cs))"
  using assms run_total [OF assms, of cs]
  by (simp add: next_unlocked set_seed_unlocked)

theorem calls_are_total_witness:
  "m_mutex (random_device_statics_init 7 :: 64 statics) = Unlocked
   \<and> (\<exists>v st'. random_device_next (random_device_statics_init 7 :: 64 statics) = Some (v, st')
         \<and> m_mutex st' = Unlocked)
   \<and> (\<exists>st'. random_device_set_seed 0 (random_device_statics_init 7 :: 64 statics) = Some st'
         \<and> m_mutex st' = Unlocked)
   \<and> (\<exists>vs st'. run [Set_seed 0, Next, Next] (random_device_statics_init 7 :: 64 statics)
                  = Some (vs, st') \<and> m_mutex st' = Unlocked
         \<and> length vs = length (filter (\<lambda>c. c = Next) [Set_seed 0, Next, Next]))"
proof -
  have h: "m_mutex (random_device_statics_init 7 :: 64 statics) = Unlocked"
    by (rule init_unlocked)
  show ?thesis
    using h calls_are_total [OF h, of 0 "[Set_seed 0, Next, Next]"] by blast
qed

text \<open>
  C7: \<^verbatim>\<open>next()\<close> returns the engine's output unchanged: the output, a value of the
  result type, lies below \<open>2 ^ 32\<close>, the cast to \<^verbatim>\<open>unsigned int\<close> keeps its value, and the
  engine has made exactly one transition.
\<close>

theorem next_returns_engine_output:
  fixes st :: "'r::len statics"
  assumes "m_mutex st = Unlocked" and "valid_engine (m_e st)"
  shows "\<exists>v st'. random_device_next st = Some (v, st')
           \<and> unat v = unat (fst (call (m_e st)))
           \<and> unat (fst (call (m_e st))) < 2 ^ 32
           \<and> m_e st' = snd (call (m_e st))
           \<and> m_e st' = advance 1 (m_e st)
           \<and> valid_engine (m_e st')"
proof -
  have b: "unat (fst (call (m_e st))) < 2 ^ 32"
    using assms(2) by (rule call_value_bounded)
  then have "unat (ucast (fst (call (m_e st))) :: uint) = unat (fst (call (m_e st)))"
    by (rule ucast_value_preserved)
  then show ?thesis
    using assms b by (simp add: next_unlocked valid_engine_call)
qed

theorem next_returns_engine_output_witness:
  "m_mutex (random_device_statics_init 7 :: 64 statics) = Unlocked
   \<and> valid_engine (m_e (random_device_statics_init 7 :: 64 statics))
   \<and> (\<exists>v st'. random_device_next (random_device_statics_init 7 :: 64 statics) = Some (v, st')
         \<and> unat v = unat (fst (call (m_e (random_device_statics_init 7 :: 64 statics))))
         \<and> unat (fst (call (m_e (random_device_statics_init 7 :: 64 statics)))) < 2 ^ 32)"
proof -
  have h1: "m_mutex (random_device_statics_init 7 :: 64 statics) = Unlocked"
    by (rule init_unlocked)
  have h2: "valid_engine (m_e (random_device_statics_init 7 :: 64 statics))"
    by (simp add: init_engine valid_engine_seed)
  show ?thesis
    using h1 h2 next_returns_engine_output [OF h1 h2] by blast
qed

text \<open>
  C8: A call of \<^verbatim>\<open>set_seed(sd)\<close> that returns leaves the statics as they were except for
  the engine, which is the one seeded with \<open>sd\<close>: the seed is kept nowhere else. A call
  of \<^verbatim>\<open>next()\<close> that returns leaves the statics as they were except for the engine,
  which has made one transition. The mutex is as it was before the call.
\<close>

theorem calls_change_engine_only:
  fixes st :: "'r::len statics"
  shows "(random_device_set_seed sd st = Some st'
            \<longrightarrow> st' = st\<lparr>m_e := mersenne_twister_engine (ucast sd)\<rparr>
                \<and> m_mutex st' = m_mutex st)
       \<and> (random_device_next st = Some (v, st'')
            \<longrightarrow> st'' = st\<lparr>m_e := snd (call (m_e st))\<rparr>
                \<and> m_mutex st'' = m_mutex st)"
proof (cases "m_mutex st")
  case Unlocked
  then show ?thesis
    by (auto simp add: set_seed_unlocked next_unlocked)
next
  case Locked
  then show ?thesis
    by (simp add: set_seed_locked next_locked)
qed

theorem calls_change_engine_only_witness:
  "random_device_set_seed 5 (random_device_statics_init 7 :: 64 statics)
     = Some ((random_device_statics_init 7)\<lparr>m_e := mersenne_twister_engine (ucast (5 :: uint))\<rparr>)
   \<and> m_mutex ((random_device_statics_init 7 :: 64 statics)\<lparr>m_e := mersenne_twister_engine (ucast (5 :: uint))\<rparr>)
       = m_mutex (random_device_statics_init 7 :: 64 statics)
   \<and> random_device_next (random_device_statics_init 7 :: 64 statics)
       = Some (ucast (fst (call (m_e (random_device_statics_init 7 :: 64 statics)))),
               (random_device_statics_init 7)\<lparr>m_e := snd (call (m_e (random_device_statics_init 7)))\<rparr>)
   \<and> m_mutex ((random_device_statics_init 7 :: 64 statics)\<lparr>m_e := snd (call (m_e (random_device_statics_init 7)))\<rparr>)
       = m_mutex (random_device_statics_init 7 :: 64 statics)"
proof -
  let ?st = "random_device_statics_init 7 :: 64 statics"
  let ?a = "?st\<lparr>m_e := mersenne_twister_engine (ucast (5 :: uint))\<rparr>"
  let ?b = "?st\<lparr>m_e := snd (call (m_e ?st))\<rparr>"
  have h1: "random_device_set_seed 5 ?st = Some ?a"
    by (rule set_seed_unlocked) (rule init_unlocked)
  have h2: "random_device_next ?st = Some (ucast (fst (call (m_e ?st))), ?b)"
    by (rule next_unlocked) (rule init_unlocked)
  have "m_mutex ?a = m_mutex ?st" and "m_mutex ?b = m_mutex ?st"
    using calls_change_engine_only [of 5 ?st ?a "ucast (fst (call (m_e ?st)))" ?b] h1 h2
    by blast+
  then show ?thesis
    using h1 h2 by blast
qed

text \<open>
  C9: For every value \<open>rd\<close> of the entropy source there is a 32-bit seed \<open>v\<close> such that
  \<^verbatim>\<open>set_seed(v)\<close> produces the implicitly seeded initial state, so that the stream of an
  implicitly seeded process is the stream after \<^verbatim>\<open>set_seed(v)\<close>.
\<close>

theorem implicit_seed_is_an_explicit_seed:
  fixes st :: "'r::len statics"
  assumes "m_mutex st = Unlocked"
  shows "\<exists>v. random_device_set_seed v st = Some (random_device_statics_init rd)
           \<and> map_option fst (run (Set_seed v # replicate n Next) st)
               = map_option fst (run (replicate n Next) (random_device_statics_init rd :: 'r statics))"
proof -
  have s: "random_device_set_seed rd st = Some (random_device_statics_init rd)"
    using assms by (cases st) (simp add: set_seed_unlocked random_device_statics_init_def)
  then have "run (Set_seed rd # replicate n Next) st
               = run (replicate n Next) (random_device_statics_init rd)"
    by simp
  with s show ?thesis
    by (intro exI [of _ rd]) simp
qed

theorem implicit_seed_is_an_explicit_seed_witness:
  "m_mutex (random_device_statics_init 7 :: 64 statics) = Unlocked
   \<and> (\<exists>v. random_device_set_seed v (random_device_statics_init 7 :: 64 statics)
              = Some (random_device_statics_init 9)
          \<and> map_option fst (run (Set_seed v # replicate 4 Next) (random_device_statics_init 7 :: 64 statics))
              = map_option fst (run (replicate 4 Next) (random_device_statics_init 9 :: 64 statics)))"
proof -
  have h: "m_mutex (random_device_statics_init 7 :: 64 statics) = Unlocked"
    by (rule init_unlocked)
  show ?thesis
    using h implicit_seed_is_an_explicit_seed [OF h, of 9 4] by blast
qed

text \<open>
  C10: \<^verbatim>\<open>set_seed(s1)\<close> immediately followed by \<^verbatim>\<open>set_seed(s2)\<close> leaves the state that
  \<^verbatim>\<open>set_seed(s2)\<close> alone leaves; in particular \<^verbatim>\<open>set_seed(s)\<close> twice is \<^verbatim>\<open>set_seed(s)\<close>
  once.
\<close>

theorem set_seed_last_write_wins:
  fixes st :: "'r::len statics"
  assumes "m_mutex st = Unlocked"
  shows "Option.bind (random_device_set_seed s1 st) (random_device_set_seed s2)
           = random_device_set_seed s2 st
       \<and> random_device_set_seed s2 st = Some (st\<lparr>m_e := mersenne_twister_engine (ucast s2)\<rparr>)
       \<and> Option.bind (random_device_set_seed s st) (random_device_set_seed s)
           = random_device_set_seed s st
       \<and> run [Set_seed s1, Set_seed s2] st = run [Set_seed s2] st"
proof -
  have twice: "Option.bind (random_device_set_seed a st) (random_device_set_seed b)
                 = random_device_set_seed b st" for a b
  proof -
    have "m_mutex (st\<lparr>m_e := mersenne_twister_engine (ucast a)\<rparr>) = Unlocked"
      using assms by simp
    then show ?thesis
      using assms by (simp add: set_seed_unlocked)
  qed
  have "run [Set_seed s1, Set_seed s2] st = run [Set_seed s2] st"
    using twice [of s1 s2] assms by (simp add: set_seed_unlocked split: option.splits)
  then show ?thesis
    using assms twice by (simp add: set_seed_unlocked)
qed

theorem set_seed_last_write_wins_witness:
  "m_mutex (random_device_statics_init 7 :: 64 statics) = Unlocked
   \<and> Option.bind (random_device_set_seed 1 (random_device_statics_init 7 :: 64 statics))
         (random_device_set_seed 2)
       = random_device_set_seed 2 (random_device_statics_init 7)
   \<and> random_device_set_seed 2 (random_device_statics_init 7 :: 64 statics)
       = Some ((random_device_statics_init 7)\<lparr>m_e := mersenne_twister_engine (ucast (2 :: uint))\<rparr>)
   \<and> Option.bind (random_device_set_seed 3 (random_device_statics_init 7 :: 64 statics))
         (random_device_set_seed 3)
       = random_device_set_seed 3 (random_device_statics_init 7)
   \<and> run [Set_seed 1, Set_seed 2] (random_device_statics_init 7 :: 64 statics)
       = run [Set_seed 2] (random_device_statics_init 7)"
proof -
  have h: "m_mutex (random_device_statics_init 7 :: 64 statics) = Unlocked"
    by (rule init_unlocked)
  show ?thesis
    using h set_seed_last_write_wins [OF h, of 1 2 3] by blast
qed

end
